theory Spec2Isabelle
  imports Complex_Main
begin

section \<open>Graph model\<close>

text \<open>
  The program works on undirected \<^verbatim>\<open>networkx.Graph\<close> objects. Such a graph is a
  dictionary from node to the dictionary of its neighbours, both in insertion order. It is
  modelled as an association list from a node to the list of its neighbours. Node
  identifiers are Python integers (\<^verbatim>\<open>nodetype=int\<close>).
\<close>

type_synonym node = int
type_synonym graph = "(node \<times> node list) list"

datatype error = ValueError | IndexError | ZeroDivisionError | NetworkXError | NodeNotFound

definition nodes :: "graph \<Rightarrow> node list" where
  "nodes g = map fst g"

text \<open>
  \<^verbatim>\<open>G.adj[v]\<close>. In a graph kept by networkx every neighbour is itself a node, so the
  look-up of a neighbour never fails; for a key that is absent the model gives no
  neighbours.
\<close>

definition adj :: "graph \<Rightarrow> node \<Rightarrow> node list" where
  "adj g v = (case map_of g v of None \<Rightarrow> [] | Some nbrs \<Rightarrow> nbrs)"

text \<open>
  The breadth-first traversal of networkx, shared by
  \<^verbatim>\<open>single_source_shortest_path_length\<close> and \<^verbatim>\<open>_plain_bfs\<close>:
  \<^verbatim>\<open>
    seen = {}; level = 0; nextlevel = {source}
    while nextlevel:
        thislevel = nextlevel; nextlevel = {}
        for v in thislevel:
            if v not in seen:
                seen[v] = level
                nextlevel.update(adj[v])
        level += 1
  \<close>
  A level is a dictionary, so each node occurs in it once (\<open>remdups\<close>); the order of the
  nodes within a level does not affect any distance. The loop ends because every round
  with a non-empty level either sees a new node, of which the graph has finitely many, or
  leaves the next level empty.
\<close>

definition neighbour_universe :: "graph \<Rightarrow> node set" where
  "neighbour_universe g = set (concat (map snd g))"

function bfs_levels :: "graph \<Rightarrow> (node \<times> nat) list \<Rightarrow> nat \<Rightarrow> node list \<Rightarrow> (node \<times> nat) list" where
  "bfs_levels g seen level nextlevel =
     (if nextlevel = [] then seen
      else let new = remdups (filter (\<lambda>v. v \<notin> fst ` set seen) nextlevel)
           in bfs_levels g (seen @ map (\<lambda>v. (v, level)) new) (Suc level)
                (concat (map (adj g) new)))"
  by pat_completeness auto

subsection \<open>Library operations on graphs\<close>

text \<open>
  \<^verbatim>\<open>single_source_shortest_path_length\<close> raises \<^verbatim>\<open>NodeNotFound\<close> for a source that is
  not in the graph. Its result is the dictionary from reached node to distance;
  unreached nodes are absent.
\<close>

definition single_source_shortest_path_length :: "graph \<Rightarrow> node \<Rightarrow> error + (node \<times> nat) list" where
  "single_source_shortest_path_length g source =
     (if source \<notin> set (nodes g) then Inl NodeNotFound
      else Inr (bfs_levels g [] 0 [source]))"

text \<open>\<^verbatim>\<open>_plain_bfs\<close>: the nodes reached by the same traversal.\<close>

definition plain_bfs :: "graph \<Rightarrow> node \<Rightarrow> node list" where
  "plain_bfs g source = map fst (bfs_levels g [] 0 [source])"

text \<open>
  \<^verbatim>\<open>connected_components\<close> walks the nodes in graph order and starts a traversal from
  every node that no earlier component contains.
\<close>

fun cc_loop :: "graph \<Rightarrow> node list \<Rightarrow> node list \<Rightarrow> node list list" where
  "cc_loop g seen [] = []"
| "cc_loop g seen (v # vs) =
     (if v \<in> set seen then cc_loop g seen vs
      else let c = plain_bfs g v in c # cc_loop g (seen @ c) vs)"

definition connected_components :: "graph \<Rightarrow> node list list" where
  "connected_components g = cc_loop g [] (nodes g)"

text \<open>\<^verbatim>\<open>G.subgraph(c).copy()\<close>: the nodes of \<open>c\<close> and the edges between them.\<close>

definition subgraph :: "graph \<Rightarrow> node list \<Rightarrow> graph" where
  "subgraph g c =
     map (\<lambda>(u, nbrs). (u, filter (\<lambda>v. v \<in> set c) nbrs)) (filter (\<lambda>(u, nbrs). u \<in> set c) g)"

definition connected_component_subgraphs :: "graph \<Rightarrow> graph list" where
  "connected_component_subgraphs g = map (subgraph g) (connected_components g)"

text \<open>
  \<^verbatim>\<open>graph.degree()\<close> pairs every node, in graph order, with the number of its
  neighbours, a self-loop counting twice. \<^verbatim>\<open>graph.size()\<close> is the number of edges, half
  the sum of the degrees. \<^verbatim>\<open>len(graph)\<close> and \<^verbatim>\<open>graph.order()\<close> are the number of nodes.
\<close>

definition degree :: "graph \<Rightarrow> (node \<times> nat) list" where
  "degree g = map (\<lambda>(n, nbrs). (n, length nbrs + (if n \<in> set nbrs then 1 else 0))) g"

definition size_graph :: "graph \<Rightarrow> nat" where
  "size_graph g = sum_list (map snd (degree g)) div 2"

definition len_graph :: "graph \<Rightarrow> nat" where
  "len_graph g = length (nodes g)"

text \<open>
  Removing a node deletes its entry and deletes it from the neighbours of every other
  node (networkx keeps the adjacency symmetric, so the neighbours of the removed node are
  exactly the nodes that list it).
\<close>

definition del_node :: "node \<Rightarrow> graph \<Rightarrow> graph" where
  "del_node n g = map (\<lambda>(u, nbrs). (u, removeAll n nbrs)) (filter (\<lambda>(u, nbrs). u \<noteq> n) g)"

subsection \<open>Python built-ins\<close>

text \<open>\<^verbatim>\<open>max\<close> of an empty sequence raises \<^verbatim>\<open>ValueError\<close>.\<close>

definition py_max :: "nat list \<Rightarrow> error + nat" where
  "py_max xs = (case xs of [] \<Rightarrow> Inl ValueError | x # rest \<Rightarrow> Inr (fold max rest x))"

text \<open>
  \<^verbatim>\<open>random.choice\<close> raises \<^verbatim>\<open>IndexError\<close> on an empty sequence. The random source is an
  explicit argument: the draw \<open>r\<close> selects position \<open>r mod length xs\<close>.
\<close>

definition random_choice :: "nat \<Rightarrow> 'a list \<Rightarrow> error + 'a" where
  "random_choice r xs = (if xs = [] then Inl IndexError else Inr (xs ! (r mod length xs)))"

text \<open>
  \<^verbatim>\<open>sorted(xs, key=k, reverse=True)\<close> is stable: elements with equal keys keep their
  order. For a numeric key this is the stable ascending sort by the negated key.
\<close>

definition sorted_reverse :: "('a \<Rightarrow> nat) \<Rightarrow> 'a list \<Rightarrow> 'a list" where
  "sorted_reverse k xs = sort_key (\<lambda>x. - int (k x)) xs"

section \<open>Graph objects and the removal steps\<close>

text \<open>
  Graphs are mutable objects. The store is the list of all graph objects allocated so far,
  and a reference is a position in it. \<^verbatim>\<open>nx.Graph(src_graph)\<close> allocates a new object with
  the nodes, in the same order, and the edges of its argument (the order of the neighbours
  within a node, which no operation here observes, is kept as well);
  \<^verbatim>\<open>graph.remove_node(n)\<close> changes the object it is called on in place and raises
  \<^verbatim>\<open>NetworkXError\<close> when \<open>n\<close> is not a node.
\<close>

type_synonym addr = nat
type_synonym heap = "graph list"

definition nx_Graph :: "heap \<Rightarrow> addr \<Rightarrow> heap \<times> addr" where
  "nx_Graph h src = (h @ [h ! src], length h)"

definition remove_node :: "heap \<Rightarrow> addr \<Rightarrow> node \<Rightarrow> error + heap" where
  "remove_node h a n =
     (if n \<in> set (nodes (h ! a)) then Inr (h[a := del_node n (h ! a)]) else Inl NetworkXError)"

definition fail :: "nat \<Rightarrow> heap \<Rightarrow> addr \<Rightarrow> heap \<times> (error + addr)" where
  "fail r h src_graph =
     (let (h1, graph) = nx_Graph h src_graph
      in case random_choice r (nodes (h1 ! graph)) of
           Inl e \<Rightarrow> (h1, Inl e)
         | Inr n \<Rightarrow>
             (case remove_node h1 graph n of
                Inl e \<Rightarrow> (h1, Inl e)
              | Inr h2 \<Rightarrow> (h2, Inr graph)))"

definition attack_degree :: "heap \<Rightarrow> addr \<Rightarrow> heap \<times> (error + addr)" where
  "attack_degree h src_graph =
     (let (h1, graph) = nx_Graph h src_graph;
          degrees = degree (h1 ! graph)
      in case py_max (map snd degrees) of
           Inl e \<Rightarrow> (h1, Inl e)
         | Inr max_degree \<Rightarrow>
             (case map fst (filter (\<lambda>(k, v). v = max_degree) degrees) of
                [] \<Rightarrow> (h1, Inl IndexError)
              | k # _ \<Rightarrow>
                  (case remove_node h1 graph k of
                     Inl e \<Rightarrow> (h1, Inl e)
                   | Inr h2 \<Rightarrow> (h2, Inr graph))))"

section \<open>Metrics\<close>

text \<open>
  Python's numbers are modelled exactly: the integers that the metrics count are natural
  numbers, and a float is the rational number it holds. The sums below are sums of
  integers, which floating point adds without error below \<open>2 ^ 53\<close>, and each division
  is a single division of two integers, which floating point rounds to the nearest
  double; the model keeps the exact quotient.
\<close>

fun path_loop :: "graph \<Rightarrow> node list \<Rightarrow> nat \<times> rat \<Rightarrow> error + (nat \<times> rat)" where
  "path_loop g [] st = Inr st"
| "path_loop g (n # ns) (max_path_length, total_sum) =
     (case single_source_shortest_path_length g n of
        Inl e \<Rightarrow> Inl e
      | Inr path_length \<Rightarrow>
          (case py_max (map snd path_length) of
             Inl e \<Rightarrow> Inl e
           | Inr m \<Rightarrow>
               path_loop g ns
                 (if m > max_path_length then m else max_path_length,
                  total_sum + of_nat (sum_list (map snd path_length)))))"

definition diameter_and_avg_path_length :: "graph \<Rightarrow> error + (nat \<times> rat)" where
  "diameter_and_avg_path_length g =
     (case path_loop g (nodes g) (0, 0) of
        Inl e \<Rightarrow> Inl e
      | Inr (max_path_length, total_sum) \<Rightarrow>
          (let d = int (len_graph g) * (int (len_graph g) - 1)
           in Inr (max_path_length, if d = 0 then 0 else total_sum / of_int d)))"

definition giant_component_fraction :: "graph \<Rightarrow> error + rat" where
  "giant_component_fraction g =
     (case sorted_reverse len_graph (connected_component_subgraphs g) of
        [] \<Rightarrow> Inl IndexError
      | biggest_ga # _ \<Rightarrow>
          (if length (nodes g) = 0 then Inl ZeroDivisionError
           else Inr (of_nat (size_graph biggest_ga) / of_nat (length (nodes g)))))"

text \<open>
  The reading of the giant-component fraction that selects by edge count, written from
  the specification's words for comparison with \<open>giant_component_fraction\<close>: the largest
  edge count of a component divided by the number of nodes of the graph.
\<close>

definition most_edges_fraction :: "graph \<Rightarrow> rat" where
  "most_edges_fraction g =
     of_nat (fold max (map size_graph (connected_component_subgraphs g)) 0) / of_nat (len_graph g)"

text \<open>
  Shortest-path distance, written from the specification's words for comparison with the
  traversal: a walk of \<open>k\<close> edges leads from \<open>s\<close> to \<open>t\<close>; \<open>t\<close> is reachable from \<open>s\<close>
  when some walk leads there, and its distance is the length of a shortest one.
\<close>

inductive walk :: "graph \<Rightarrow> node \<Rightarrow> nat \<Rightarrow> node \<Rightarrow> bool" for g s where
  walk_0: "walk g s 0 s"
| walk_Suc: "walk g s k u \<Longrightarrow> t \<in> set (adj g u) \<Longrightarrow> walk g s (Suc k) t"

definition reachable :: "graph \<Rightarrow> node \<Rightarrow> node \<Rightarrow> bool" where
  "reachable g s t \<longleftrightarrow> (\<exists>k. walk g s k t)"

definition distance :: "graph \<Rightarrow> node \<Rightarrow> node \<Rightarrow> nat" where
  "distance g s t = (LEAST k. walk g s k t)"

definition is_distance :: "graph \<Rightarrow> node \<Rightarrow> node \<Rightarrow> nat \<Rightarrow> bool" where
  "is_distance g s t d \<longleftrightarrow> walk g s d t \<and> (\<forall>k<d. \<not> walk g s k t)"

section \<open>Simulation drivers\<close>

text \<open>
  The drivers return nothing; what they compute is the three history series that they
  print and hand to \<^verbatim>\<open>dump_history\<close>. The model returns these series, or the exception
  that ended the run. \<^verbatim>\<open>range(nodes_to_remove)\<close> is empty for a negative argument, and
  \<^verbatim>\<open>iteration % measure_frequency\<close> raises \<^verbatim>\<open>ZeroDivisionError\<close> for frequency zero.
\<close>

type_synonym history = "rat list \<times> rat list \<times> rat list"

fun attack_loop :: "int \<Rightarrow> nat list \<Rightarrow> heap \<Rightarrow> addr \<Rightarrow> history \<Rightarrow> heap \<times> (error + history)" where
  "attack_loop measure_frequency [] h graph hist = (h, Inr hist)"
| "attack_loop measure_frequency (iteration # rest) h graph (diameters, path_lens, ga_fractions) =
     (case attack_degree h graph of
        (h1, Inl e) \<Rightarrow> (h1, Inl e)
      | (h1, Inr graph1) \<Rightarrow>
          if measure_frequency = 0 then (h1, Inl ZeroDivisionError)
          else if int iteration mod measure_frequency = 0 then
            (case diameter_and_avg_path_length (h1 ! graph1) of
               Inl e \<Rightarrow> (h1, Inl e)
             | Inr (diameter, avg_path_len) \<Rightarrow>
                 (case giant_component_fraction (h1 ! graph1) of
                    Inl e \<Rightarrow> (h1, Inl e)
                  | Inr ga \<Rightarrow>
                      attack_loop measure_frequency rest h1 graph1
                        (diameters @ [of_nat diameter], path_lens @ [avg_path_len],
                         ga_fractions @ [ga])))
          else attack_loop measure_frequency rest h1 graph1 (diameters, path_lens, ga_fractions))"

definition robustness_by_attack :: "heap \<Rightarrow> addr \<Rightarrow> int \<Rightarrow> int \<Rightarrow> heap \<times> (error + history)" where
  "robustness_by_attack h src_graph nodes_to_remove measure_frequency =
     attack_loop measure_frequency [0..<nat nodes_to_remove] h src_graph ([], [], [])"

text \<open>
  In failure mode only the giant-component series is filled; the diameter and path-length
  series of every run stay empty. The random source gives the draw of each iteration of
  each run.
\<close>

fun fail_loop :: "(nat \<Rightarrow> nat) \<Rightarrow> int \<Rightarrow> nat list \<Rightarrow> heap \<Rightarrow> addr \<Rightarrow> rat list
    \<Rightarrow> heap \<times> (error + rat list)" where
  "fail_loop draw measure_frequency [] h graph ga_on_run = (h, Inr ga_on_run)"
| "fail_loop draw measure_frequency (iteration # rest) h graph ga_on_run =
     (case fail (draw iteration) h graph of
        (h1, Inl e) \<Rightarrow> (h1, Inl e)
      | (h1, Inr graph1) \<Rightarrow>
          if measure_frequency = 0 then (h1, Inl ZeroDivisionError)
          else if int iteration mod measure_frequency = 0 then
            (case giant_component_fraction (h1 ! graph1) of
               Inl e \<Rightarrow> (h1, Inl e)
             | Inr ga \<Rightarrow> fail_loop draw measure_frequency rest h1 graph1 (ga_on_run @ [ga]))
          else fail_loop draw measure_frequency rest h1 graph1 ga_on_run)"

type_synonym fail_history = "rat list list \<times> rat list list \<times> rat list list"

fun fail_runs :: "(nat \<Rightarrow> nat \<Rightarrow> nat) \<Rightarrow> int \<Rightarrow> int \<Rightarrow> nat list \<Rightarrow> heap \<Rightarrow> addr \<Rightarrow> fail_history
    \<Rightarrow> heap \<times> (error + fail_history)" where
  "fail_runs draw nodes_to_remove measure_frequency [] h src_graph hist = (h, Inr hist)"
| "fail_runs draw nodes_to_remove measure_frequency (run # rest) h src_graph
       (diameters, path_lens, ga_fractions) =
     (case fail_loop (draw run) measure_frequency [0..<nat nodes_to_remove] h src_graph [] of
        (h1, Inl e) \<Rightarrow> (h1, Inl e)
      | (h1, Inr ga_on_run) \<Rightarrow>
          fail_runs draw nodes_to_remove measure_frequency rest h1 src_graph
            (diameters @ [[]], path_lens @ [[]], ga_fractions @ [ga_on_run]))"

definition robustness_by_fail :: "(nat \<Rightarrow> nat \<Rightarrow> nat) \<Rightarrow> heap \<Rightarrow> addr \<Rightarrow> int \<Rightarrow> int \<Rightarrow> int
    \<Rightarrow> heap \<times> (error + fail_history)" where
  "robustness_by_fail draw h src_graph number_of_runs nodes_to_remove measure_frequency =
     fail_runs draw nodes_to_remove measure_frequency [0..<nat number_of_runs] h src_graph
       ([], [], [])"

section \<open>Graphs after a number of removals\<close>

text \<open>
  For stating which graph a sample is taken from: the graph that a removal step returns
  for an argument holding \<open>g\<close>, and the graph after a number of attack steps, or after the
  failure steps of a list of iterations. A sample of attack mode is the triple of
  diameter, average path length and giant-component fraction of such a graph; a sample
  of failure mode is its giant-component fraction.
\<close>

definition graph_result :: "heap \<times> (error + addr) \<Rightarrow> error + graph" where
  "graph_result p = (case p of (h, Inl e) \<Rightarrow> Inl e | (h, Inr a) \<Rightarrow> Inr (h ! a))"

fun after_attacks :: "nat \<Rightarrow> graph \<Rightarrow> error + graph" where
  "after_attacks 0 g = Inr g"
| "after_attacks (Suc k) g =
     (case graph_result (attack_degree [g] 0) of
        Inl e \<Rightarrow> Inl e
      | Inr g' \<Rightarrow> after_attacks k g')"

fun after_fails :: "(nat \<Rightarrow> nat) \<Rightarrow> nat list \<Rightarrow> graph \<Rightarrow> error + graph" where
  "after_fails draw [] g = Inr g"
| "after_fails draw (i # rest) g =
     (case graph_result (fail (draw i) [g] 0) of
        Inl e \<Rightarrow> Inl e
      | Inr g' \<Rightarrow> after_fails draw rest g')"

definition attack_entry :: "graph \<Rightarrow> nat \<Rightarrow> rat \<times> rat \<times> rat \<Rightarrow> bool" where
  "attack_entry g k e \<longleftrightarrow>
     (\<exists>G d. after_attacks k g = Inr G \<and> len_graph G + k \<le> len_graph g
        \<and> diameter_and_avg_path_length G = Inr (d, fst (snd e)) \<and> fst e = of_nat d
        \<and> giant_component_fraction G = Inr (snd (snd e)))"

definition fail_entry :: "(nat \<Rightarrow> nat) \<Rightarrow> graph \<Rightarrow> nat list \<Rightarrow> rat \<Rightarrow> bool" where
  "fail_entry draw g its v \<longleftrightarrow>
     (\<exists>G. after_fails draw its g = Inr G \<and> len_graph G + length its \<le> len_graph g
        \<and> giant_component_fraction G = Inr v)"

section \<open>History store\<close>














section \<open>Termination of the traversal\<close>

lemma adj_subset_universe: "set (adj g v) \<subseteq> neighbour_universe g"
proof (cases "map_of g v")
  case None
  then show ?thesis by (simp add: adj_def)
next
  case (Some nbrs)
  then have "(v, nbrs) \<in> set g" by (rule map_of_SomeD)
  then have "set nbrs \<subseteq> neighbour_universe g"
    by (force simp: neighbour_universe_def)
  with Some show ?thesis by (simp add: adj_def)
qed

lemma concat_adj_subset_universe: "set (concat (map (adj g) vs)) \<subseteq> neighbour_universe g"
  using adj_subset_universe by fastforce

termination bfs_levels
proof (relation "measure (\<lambda>(g, seen, level, nl).
          2 * card ((neighbour_universe g \<union> set nl) - fst ` set seen)
          + (if nl = [] then 0 else 1))", goal_cases)
  case 1
  show ?case by simp
next
  case (2 g seen level nl new)
  let ?U = "neighbour_universe g"
  let ?S = "fst ` set seen"
  let ?nxt = "concat (map (adj g) new)"
  have new: "set new = set nl - ?S" using 2 by auto
  have fin: "finite ((?U \<union> set nl) - ?S)"
    by (simp add: neighbour_universe_def)
  have sub: "set ?nxt \<subseteq> ?U" by (rule concat_adj_subset_universe)
  have S': "fst ` set (seen @ map (\<lambda>v. (v, level)) new) = ?S \<union> set new"
    by (auto simp: image_Un image_image)
  have eq: "(?U \<union> set ?nxt) - (?S \<union> set new) = ?U - (?S \<union> set new)"
    using sub by blast
  define c' where "c' = card ((?U \<union> set ?nxt) - fst ` set (seen @ map (\<lambda>v. (v, level)) new))"
  define c where "c = card ((?U \<union> set nl) - ?S)"
  have nxt_card: "c' = card (?U - (?S \<union> set new))"
    unfolding c'_def by (simp only: S' eq)
  have goal: "2 * c' + (if ?nxt = [] then 0 else 1) < 2 * c + (if nl = [] then 0 else 1)"
  proof (cases "new = []")
    case True
    then have nil: "?nxt = []" by simp
    have "c' \<le> c"
      unfolding nxt_card c_def by (rule card_mono[OF fin]) blast
    with 2(1) show ?thesis by (simp only: nil if_True if_False) simp
  next
    case False
    then obtain v where v: "v \<in> set nl" "v \<notin> ?S" using new by (cases new) auto
    have "?U - (?S \<union> set new) \<subset> (?U \<union> set nl) - ?S"
      using v new by blast
    then have "c' < c"
      unfolding nxt_card c_def by (rule psubset_card_mono[OF fin])
    with 2(1) show ?thesis by (simp split: if_splits)
  qed
  show ?case
    unfolding in_measure prod.case using goal unfolding c'_def c_def .
qed

declare bfs_levels.simps [simp del]


section \<open>The removal steps\<close>

lemma py_max_Nil: "py_max [] = Inl ValueError"
  by (simp add: py_max_def)

lemma py_max_nonempty:
  assumes "xs \<noteq> []"
  shows "py_max xs = Inr (Max (set xs))"
proof (cases xs)
  case Nil
  then show ?thesis using \<open>xs \<noteq> []\<close> by simp
next
  case (Cons x rest)
  then show ?thesis
    using Max.set_eq_fold[of x rest] by (simp add: py_max_def)
qed

lemma first_maximum_split:
  fixes xs :: "('a \<times> nat) list"
  assumes "xs \<noteq> []"
  defines "d \<equiv> Max (set (map snd xs))"
  shows "\<exists>pre n post. xs = pre @ (n, d) # post
           \<and> (\<forall>(k, v) \<in> set pre. v < d) \<and> (\<forall>(k, v) \<in> set post. v \<le> d)
           \<and> map fst (filter (\<lambda>(k, v). v = d) xs) = n # map fst (filter (\<lambda>(k, v). v = d) post)"
proof -
  have fin: "finite (set (map snd xs))" and ne: "set (map snd xs) \<noteq> {}"
    using assms(1) by simp_all
  have le: "\<And>k v. (k, v) \<in> set xs \<Longrightarrow> v \<le> d"
    unfolding d_def using fin by (intro Max_ge) force+
  have "d \<in> set (map snd xs)" unfolding d_def by (rule Max_in[OF fin ne])
  then obtain n0 where "(n0, d) \<in> set xs" by auto
  then have "filter (\<lambda>(k, v). v = d) xs \<noteq> []"
    by (auto simp: filter_empty_conv)
  then obtain y ys where f: "filter (\<lambda>(k, v). v = d) xs = y # ys"
    by (cases "filter (\<lambda>(k, v). v = d) xs") auto
  then obtain pre post where sp: "xs = pre @ y # post" "\<forall>u \<in> set pre. \<not> (case u of (k, v) \<Rightarrow> v = d)"
      "case y of (k, v) \<Rightarrow> v = d" "ys = filter (\<lambda>(k, v). v = d) post"
    unfolding filter_eq_Cons_iff by blast
  obtain n where y: "y = (n, d)" using sp(3) by (cases y) auto
  have "\<forall>(k, v) \<in> set pre. v < d"
    using sp(1,2) le by (fastforce simp: less_le)
  moreover have "\<forall>(k, v) \<in> set post. v \<le> d"
    using sp(1) le by auto
  ultimately show ?thesis
    using sp(1,4) f y by (intro exI[of _ pre] exI[of _ n] exI[of _ post]) simp
qed

lemma nodes_Nil_iff: "nodes g = [] \<longleftrightarrow> g = []"
  by (simp add: nodes_def)

lemma attack_degree_empty:
  assumes "h ! a = []"
  shows "attack_degree h a = (h @ [[]], Inl ValueError)"
  using assms by (simp add: attack_degree_def nx_Graph_def degree_def py_max_def)

lemma attack_degree_value:
  assumes "g \<noteq> []"
  shows "\<exists>pre n d post. degree g = pre @ (n, d) # post
           \<and> (\<forall>(k, v) \<in> set pre. v < d) \<and> (\<forall>(k, v) \<in> set post. v \<le> d)
           \<and> (\<forall>h a. h ! a = g \<longrightarrow>
                  attack_degree h a = (h @ [del_node n g], Inr (length h)))"
proof -
  have ne: "degree g \<noteq> []" using assms by (simp add: degree_def)
  define d where "d = Max (set (map snd (degree g)))"
  have "\<exists>pre n post. degree g = pre @ (n, d) # post
      \<and> (\<forall>(k, v) \<in> set pre. v < d) \<and> (\<forall>(k, v) \<in> set post. v \<le> d)
      \<and> map fst (filter (\<lambda>(k, v). v = d) (degree g)) = n # map fst (filter (\<lambda>(k, v). v = d) post)"
    using first_maximum_split[OF ne] unfolding d_def .
  then obtain pre n post where
    sp: "degree g = pre @ (n, d) # post" "\<forall>(k, v) \<in> set pre. v < d" "\<forall>(k, v) \<in> set post. v \<le> d"
      "map fst (filter (\<lambda>(k, v). v = d) (degree g)) = n # map fst (filter (\<lambda>(k, v). v = d) post)"
    by (elim exE conjE)
  have mx: "py_max (map snd (degree g)) = Inr d"
    using ne by (simp add: py_max_nonempty d_def)
  have "n \<in> fst ` set (degree g)" using sp(1) by force
  then have mem: "n \<in> set (nodes g)"
    by (force simp: degree_def nodes_def)
  have "attack_degree h a = (h @ [del_node n g], Inr (length h))" if "h ! a = g" for h a
    using mx sp(4) mem that
    by (simp add: attack_degree_def nx_Graph_def remove_node_def)
  with sp(1-3) show ?thesis by blast
qed

lemma attack_degree_nonempty:
  assumes "h ! a \<noteq> []"
  shows "\<exists>pre n d post. degree (h ! a) = pre @ (n, d) # post
           \<and> (\<forall>(k, v) \<in> set pre. v < d) \<and> (\<forall>(k, v) \<in> set post. v \<le> d)
           \<and> attack_degree h a = (h @ [del_node n (h ! a)], Inr (length h))"
  using attack_degree_value[OF assms] by blast

lemma fail_empty:
  assumes "h ! a = []"
  shows "fail r h a = (h @ [[]], Inl IndexError)"
  using assms by (simp add: fail_def nx_Graph_def random_choice_def nodes_def)

lemma fail_nonempty:
  assumes "h ! a \<noteq> []"
  shows "fail r h a = (h @ [del_node (nodes (h ! a) ! (r mod length (h ! a))) (h ! a)], Inr (length h))"
proof -
  have "r mod length (h ! a) < length (nodes (h ! a))"
    using assms by (simp add: nodes_def)
  then have "nodes (h ! a) ! (r mod length (h ! a)) \<in> set (nodes (h ! a))"
    by (rule nth_mem)
  then show ?thesis using assms
    by (simp add: fail_def nx_Graph_def random_choice_def remove_node_def nodes_Nil_iff)
       (simp add: nodes_def)
qed

text \<open>
  Claim C6. Both removal steps work on a copy. Whatever \<open>attack_degree\<close> or \<open>fail\<close>
  returns, the graph object passed in holds the same nodes and edges after the call as
  before, as does every other graph object that existed before the call; a returned
  graph is a new object, different from the argument.
\<close>

theorem removal_steps_do_not_mutate:
  assumes "src_graph < length h"
    and "attack_degree h src_graph = (h', res) \<or> fail r h src_graph = (h', res)"
  shows "h' ! src_graph = h ! src_graph
         \<and> (\<forall>a < length h. h' ! a = h ! a)
         \<and> (\<forall>new. res = Inr new \<longrightarrow> new \<noteq> src_graph \<and> length h \<le> new \<and> new < length h')"
proof -
  have "h' = h @ [[]] \<and> (\<exists>e. res = Inl e)
        \<or> (\<exists>g. h' = h @ [g] \<and> res = Inr (length h))"
  proof (cases "h ! src_graph = []")
    case True
    with assms(2) attack_degree_empty[OF True] fail_empty[OF True, of r] show ?thesis by auto
  next
    case False
    with assms(2) attack_degree_nonempty[OF False] fail_nonempty[OF False, of r] show ?thesis by auto
  qed
  with assms(1) show ?thesis by (auto simp: nth_append)
qed

theorem removal_steps_do_not_mutate_witness:
  "(0::nat) < length ([[(1, [2]), (2, [1, 3]), (3, [2])]] :: heap)
   \<and> attack_degree [[(1, [2]), (2, [1, 3]), (3, [2])]] 0
       = ([[(1, [2]), (2, [1, 3]), (3, [2])], [(1, []), (3, [])]], Inr 1)
   \<and> fail 5 [[(1, [2]), (2, [1, 3]), (3, [2])]] 0
       = ([[(1, [2]), (2, [1, 3]), (3, [2])], [(1, [2]), (2, [1])]], Inr 1)
   \<and> ([[(1, [2]), (2, [1, 3]), (3, [2])], [(1, []), (3, [])]] :: heap) ! 0
       = [(1, [2]), (2, [1, 3]), (3, [2])]
   \<and> ([[(1, [2]), (2, [1, 3]), (3, [2])], [(1, [2]), (2, [1])]] :: heap) ! 0
       = [(1, [2]), (2, [1, 3]), (3, [2])]"
proof -
  let ?g = "[(1, [2]), (2, [1, 3]), (3, [2])] :: graph"
  have a: "attack_degree [?g] 0 = ([?g, [(1, []), (3, [])]], Inr 1)" by code_simp
  have f: "fail 5 [?g] 0 = ([?g, [(1, [2]), (2, [1])]], Inr 1)" by code_simp
  have l: "(0::nat) < length [?g]" by simp
  have ua: "[?g, [(1, []), (3, [])]] ! 0 = [?g] ! 0"
    using removal_steps_do_not_mutate[OF l disjI1[OF a]] by (rule conjunct1)
  have uf: "[?g, [(1, [2]), (2, [1])]] ! 0 = [?g] ! 0"
    using removal_steps_do_not_mutate[OF l disjI2[OF f]] by (rule conjunct1)
  have g0: "[?g] ! 0 = ?g" by simp
  show ?thesis
    by (intro conjI) (rule l, rule a, rule f, rule trans[OF ua g0], rule trans[OF uf g0])
qed

text \<open>
  Claim C7. Two calls of \<open>attack_degree\<close> on a graph with at least one node, made in
  any two stores in which the argument holds the same graph, remove the same node: the
  first node, in graph order, whose degree is maximal. Both return a graph equal to the
  argument without that node.
\<close>

theorem attack_degree_deterministic:
  assumes "a < length h" and "a' < length h'"
    and "h ! a = g" and "h' ! a' = g" and "nodes g \<noteq> []"
    and "attack_degree h a = (h1, r1)" and "attack_degree h' a' = (h1', r1')"
  shows "\<exists>n d pre post b b'.
           degree g = pre @ (n, d) # post
           \<and> (\<forall>(k, v) \<in> set pre. v < d) \<and> (\<forall>(k, v) \<in> set post. v \<le> d)
           \<and> r1 = Inr b \<and> r1' = Inr b'
           \<and> h1 ! b = del_node n g \<and> h1' ! b' = del_node n g"
proof -
  have ne: "g \<noteq> []" using assms(5) by (auto simp: nodes_def)
  from attack_degree_value[OF ne] obtain pre n d post where
    1: "degree g = pre @ (n, d) # post" "\<forall>(k, v) \<in> set pre. v < d" "\<forall>(k, v) \<in> set post. v \<le> d"
    and 2: "\<And>h a. h ! a = g \<Longrightarrow> attack_degree h a = (h @ [del_node n g], Inr (length h))"
    by blast
  have r: "h1 = h @ [del_node n g]" "r1 = Inr (length h)"
          "h1' = h' @ [del_node n g]" "r1' = Inr (length h')"
    using 2[OF assms(3)] 2[OF assms(4)] assms(6,7) by simp_all
  have "h1 ! length h = del_node n g" "h1' ! length h' = del_node n g"
    by (simp_all add: r)
  with 1 r(2,4) show ?thesis by blast
qed

theorem attack_degree_deterministic_witness:
  "attack_degree [[(1, [2]), (2, [1, 3]), (3, [2])]] 0
     = ([[(1, [2]), (2, [1, 3]), (3, [2])], [(1, []), (3, [])]], Inr 1)
   \<and> attack_degree [[(1, [2]), (2, [1, 3]), (3, [2])], [(1, []), (3, [])]] 0
     = ([[(1, [2]), (2, [1, 3]), (3, [2])], [(1, []), (3, [])], [(1, []), (3, [])]], Inr 2)
   \<and> (\<exists>n. ([[(1, [2]), (2, [1, 3]), (3, [2])], [(1, []), (3, [])]] :: heap) ! 1
            = del_node n [(1, [2]), (2, [1, 3]), (3, [2])]
          \<and> ([[(1, [2]), (2, [1, 3]), (3, [2])], [(1, []), (3, [])], [(1, []), (3, [])]] :: heap) ! 2
            = del_node n [(1, [2]), (2, [1, 3]), (3, [2])])"
proof -
  let ?g = "[(1, [2]), (2, [1, 3]), (3, [2])] :: graph"
  let ?g' = "[(1, []), (3, [])] :: graph"
  have c1: "attack_degree [?g] 0 = ([?g, ?g'], Inr 1)" by code_simp
  have c2: "attack_degree [?g, ?g'] 0 = ([?g, ?g', ?g'], Inr 2)" by code_simp
  have v: "(0::nat) < length [?g]" "(0::nat) < length [?g, ?g']"
    "[?g] ! 0 = ?g" "[?g, ?g'] ! 0 = ?g" "nodes ?g \<noteq> []"
    by (simp_all add: nodes_def)
  from attack_degree_deterministic[OF v c1 c2]
  have "\<exists>n. [?g, ?g'] ! 1 = del_node n ?g \<and> [?g, ?g', ?g'] ! 2 = del_node n ?g"
    by (elim exE conjE) (simp only: sum.inject, blast)
  with c1 c2 show ?thesis by (intro conjI)
qed

section \<open>Giant component\<close>

lemma hd_insort_key:
  "hd (insort_key f x ys) = (if ys = [] \<or> f x \<le> f (hd ys) then x else hd ys)"
  by (cases ys) auto

lemma insort_key_not_Nil: "insort_key f x ys \<noteq> []"
  by (cases ys) auto

lemma sort_key_Nil_iff: "sort_key f xs = [] \<longleftrightarrow> xs = []"
  by (cases xs) (auto simp: insort_key_not_Nil)

lemma sorted_reverse_first:
  assumes "xs \<noteq> []"
  shows "\<exists>pre c post. xs = pre @ c # post
           \<and> (\<forall>c' \<in> set pre. k c' < k c) \<and> (\<forall>c' \<in> set post. k c' \<le> k c)
           \<and> (\<exists>rest. sorted_reverse k xs = c # rest)"
  using assms
proof (induction xs)
  case Nil
  then show ?case by simp
next
  case (Cons x xs)
  let ?f = "\<lambda>x. - int (k x)"
  show ?case
  proof (cases "xs = []")
    case True
    then have "sorted_reverse k (x # xs) = [x]" by (simp add: sorted_reverse_def)
    with True show ?thesis by (intro exI[of _ "[]"] exI[of _ x]) simp
  next
    case False
    from Cons.IH[OF False] obtain pre c post rest where
      ih: "xs = pre @ c # post" "\<forall>c' \<in> set pre. k c' < k c" "\<forall>c' \<in> set post. k c' \<le> k c"
          "sorted_reverse k xs = c # rest"
      by blast
    have srt: "sorted_reverse k (x # xs) = insort_key ?f x (c # rest)"
      using ih(4) by (simp add: sorted_reverse_def)
    show ?thesis
    proof (cases "k c \<le> k x")
      case True
      then have "sorted_reverse k (x # xs) = x # c # rest" using srt by simp
      moreover have "\<forall>c' \<in> set xs. k c' \<le> k x"
        using ih(1-3) True by (auto intro: order_trans less_imp_le)
      ultimately show ?thesis
        by (intro exI[of _ "[]"] exI[of _ x] exI[of _ xs]) simp
    next
      case nle: False
      then have "sorted_reverse k (x # xs) = c # insort_key ?f x rest" using srt by simp
      moreover have "x # xs = (x # pre) @ c # post" using ih(1) by simp
      moreover have "\<forall>c' \<in> set (x # pre). k c' < k c" using ih(2) nle by auto
      ultimately show ?thesis using ih(3)
        by (intro exI[of _ "x # pre"] exI[of _ c] exI[of _ post]) blast
    qed
  qed
qed

lemma connected_component_subgraphs_not_Nil:
  assumes "g \<noteq> []"
  shows "connected_component_subgraphs g \<noteq> []"
proof -
  obtain e rest where "g = e # rest" using assms by (cases g) auto
  then show ?thesis
    by (simp add: connected_component_subgraphs_def connected_components_def nodes_def Let_def)
qed

lemma giant_component_fraction_first_largest:
  assumes "g \<noteq> []"
  shows "\<exists>pre c post. connected_component_subgraphs g = pre @ c # post
            \<and> (\<forall>c' \<in> set pre. len_graph c' < len_graph c)
            \<and> (\<forall>c' \<in> set post. len_graph c' \<le> len_graph c)
            \<and> giant_component_fraction g = Inr (of_nat (size_graph c) / of_nat (len_graph g))"
proof -
  from sorted_reverse_first[OF connected_component_subgraphs_not_Nil[OF assms], of len_graph]
  obtain pre c post rest where
    sp: "connected_component_subgraphs g = pre @ c # post"
        "\<forall>c' \<in> set pre. len_graph c' < len_graph c" "\<forall>c' \<in> set post. len_graph c' \<le> len_graph c"
        "sorted_reverse len_graph (connected_component_subgraphs g) = c # rest"
    by blast
  have "giant_component_fraction g = Inr (of_nat (size_graph c) / of_nat (len_graph g))"
    using assms sp(4) by (simp add: giant_component_fraction_def len_graph_def nodes_def)
  with sp(1-3) show ?thesis by blast
qed

lemma giant_component_fraction_nonempty:
  assumes "g \<noteq> []"
  shows "\<exists>v. giant_component_fraction g = Inr v"
  using giant_component_fraction_first_largest[OF assms] by blast

text \<open>
  Claim C1, as amended. On a graph with at least one node the function selects the
  component with the most nodes, the first such component in the order in which the
  components are found, and returns the number of edges of that component divided by
  the number of nodes of the whole graph. For the components with 3 nodes and 2 edges
  and with 2 nodes and 1 edge the result is 2/5.
\<close>

theorem giant_component_fraction_most_nodes:
  assumes "g \<noteq> []"
  shows "(\<exists>pre c post. connected_component_subgraphs g = pre @ c # post
            \<and> (\<forall>c' \<in> set pre. len_graph c' < len_graph c)
            \<and> (\<forall>c' \<in> set post. len_graph c' \<le> len_graph c)
            \<and> giant_component_fraction g = Inr (of_nat (size_graph c) / of_nat (len_graph g)))
         \<and> giant_component_fraction [(1, [2]), (2, [1, 3]), (3, [2]), (4, [5]), (5, [4])]
             = Inr (2 / 5)"
proof (rule conjI)
  show "\<exists>pre c post. connected_component_subgraphs g = pre @ c # post
            \<and> (\<forall>c' \<in> set pre. len_graph c' < len_graph c)
            \<and> (\<forall>c' \<in> set post. len_graph c' \<le> len_graph c)
            \<and> giant_component_fraction g = Inr (of_nat (size_graph c) / of_nat (len_graph g))"
    by (rule giant_component_fraction_first_largest[OF assms])
  show "giant_component_fraction [(1, [2]), (2, [1, 3]), (3, [2]), (4, [5]), (5, [4])] = Inr (2 / 5)"
    by code_simp
qed

theorem giant_component_fraction_most_nodes_witness:
  "([(1, [2]), (2, [1, 3]), (3, [2]), (4, [5]), (5, [4])] :: graph) \<noteq> []
   \<and> giant_component_fraction [(1, [2]), (2, [1, 3]), (3, [2]), (4, [5]), (5, [4])] = Inr (2 / 5)"
  using giant_component_fraction_most_nodes
          [of "[(1, [2]), (2, [1, 3]), (3, [2]), (4, [5]), (5, [4])]"]
  by simp

text \<open>
  Claim C1 as stated fails: the selected component is not the one with the most edges. Of
  a complete graph on 4 nodes (6 edges) and a path on 5 nodes (4 edges) the function
  selects the path and returns 4/9, where selection by edge count gives 6/9.
\<close>

theorem giant_component_fraction_most_edges_counterexample:
  "giant_component_fraction
     [(1, [2, 3, 4]), (2, [1, 3, 4]), (3, [1, 2, 4]), (4, [1, 2, 3]),
      (5, [6]), (6, [5, 7]), (7, [6, 8]), (8, [7, 9]), (9, [8])] = Inr (4 / 9)
   \<and> most_edges_fraction
     [(1, [2, 3, 4]), (2, [1, 3, 4]), (3, [1, 2, 4]), (4, [1, 2, 3]),
      (5, [6]), (6, [5, 7]), (7, [6, 8]), (8, [7, 9]), (9, [8])] = 6 / 9
   \<and> giant_component_fraction
     [(1, [2, 3, 4]), (2, [1, 3, 4]), (3, [1, 2, 4]), (4, [1, 2, 3]),
      (5, [6]), (6, [5, 7]), (7, [6, 8]), (8, [7, 9]), (9, [8])]
     \<noteq> Inr (most_edges_fraction
     [(1, [2, 3, 4]), (2, [1, 3, 4]), (3, [1, 2, 4]), (4, [1, 2, 3]),
      (5, [6]), (6, [5, 7]), (7, [6, 8]), (8, [7, 9]), (9, [8])])"
  by code_simp

section \<open>Shortest paths\<close>

lemma is_distance_iff: "is_distance g s t d \<longleftrightarrow> reachable g s t \<and> d = distance g s t"
proof
  assume a: "is_distance g s t d"
  then have w: "walk g s d t" and m: "\<forall>k<d. \<not> walk g s k t"
    by (simp_all add: is_distance_def)
  have "(LEAST k. walk g s k t) = d"
  proof (rule Least_equality[of "\<lambda>k. walk g s k t" d])
    show "walk g s d t" by (rule w)
    show "d \<le> y" if "walk g s y t" for y
      using m that by (meson not_le_imp_less)
  qed
  with w show "reachable g s t \<and> d = distance g s t"
    by (auto simp: reachable_def distance_def)
next
  assume "reachable g s t \<and> d = distance g s t"
  then obtain k where k: "walk g s k t" and d: "d = (LEAST k. walk g s k t)"
    by (auto simp: reachable_def distance_def)
  have "walk g s d t" unfolding d using k by (rule LeastI[of "\<lambda>k. walk g s k t" k])
  moreover have "\<forall>j<d. \<not> walk g s j t" unfolding d using not_less_Least by blast
  ultimately show "is_distance g s t d" by (simp add: is_distance_def)
qed

lemma is_distance_unique: "is_distance g s t d \<Longrightarrow> is_distance g s t d' \<Longrightarrow> d = d'"
  by (simp add: is_distance_iff)

lemma walk_has_distance: "walk g s k t \<Longrightarrow> \<exists>d\<le>k. is_distance g s t d"
proof -
  assume w: "walk g s k t"
  then have "reachable g s t" by (auto simp: reachable_def)
  then have "is_distance g s t (distance g s t)" by (simp add: is_distance_iff)
  moreover have "distance g s t \<le> k" unfolding distance_def using w by (rule Least_le[of "\<lambda>k. walk g s k t" k])
  ultimately show ?thesis by blast
qed

lemma is_distance_pred:
  assumes "is_distance g s t (Suc d)"
  shows "\<exists>u. is_distance g s u d \<and> t \<in> set (adj g u)"
proof -
  from assms have w: "walk g s (Suc d) t" and m: "\<forall>k<Suc d. \<not> walk g s k t"
    by (simp_all add: is_distance_def)
  from w obtain u where u: "walk g s d u" "t \<in> set (adj g u)"
    by (cases rule: walk.cases) auto
  have "\<not> walk g s k u" if "k < d" for k
  proof
    assume "walk g s k u"
    then have "walk g s (Suc k) t" using u(2) by (rule walk_Suc)
    with m that show False by auto
  qed
  with u show ?thesis by (auto simp: is_distance_def)
qed

lemma is_distance_level:
  assumes "is_distance g s t d" and "j \<le> d"
  shows "\<exists>u. is_distance g s u j"
  using assms
proof (induction d arbitrary: t)
  case 0
  then show ?case by auto
next
  case (Suc d)
  show ?case
  proof (cases "j = Suc d")
    case True
    with Suc.prems(1) show ?thesis by blast
  next
    case False
    with Suc.prems(2) have "j \<le> d" by simp
    moreover obtain u where "is_distance g s u d"
      using is_distance_pred[OF Suc.prems(1)] by blast
    ultimately show ?thesis using Suc.IH by blast
  qed
qed

lemma bfs_levels_correct:
  assumes "set seen = {(t, d). d < level \<and> is_distance g s t d}"
    and "distinct (map fst seen)"
    and "\<forall>v \<in> set nl. walk g s level v"
    and "\<forall>t. is_distance g s t level \<longrightarrow> t \<in> set nl"
  shows "set (bfs_levels g seen level nl) = {(t, d). is_distance g s t d}
         \<and> distinct (map fst (bfs_levels g seen level nl))"
  using assms
proof (induction g seen level nl rule: bfs_levels.induct)
  case (1 g seen level nl)
  note seen = "1.prems"(1) and dist = "1.prems"(2) and nlw = "1.prems"(3) and nlc = "1.prems"(4)
  show ?case
  proof (cases "nl = []")
    case True
    have "d < level" if "is_distance g s t d" for t d
    proof (rule ccontr)
      assume "\<not> d < level"
      then have "level \<le> d" by simp
      from is_distance_level[OF that this] obtain u where "is_distance g s u level" by blast
      with nlc True show False by auto
    qed
    then have "set seen = {(t, d). is_distance g s t d}" using seen by auto
    with dist True show ?thesis by (simp add: bfs_levels.simps)
  next
    case False
    define new where "new = remdups (filter (\<lambda>v. v \<notin> fst ` set seen) nl)"
    let ?seen' = "seen @ map (\<lambda>v. (v, level)) new"
    let ?nl' = "concat (map (adj g) new)"
    have new_set: "set new = {t. is_distance g s t level}"
    proof (rule set_eqI, rule iffI)
      fix v assume "v \<in> set new"
      then have v: "v \<in> set nl" "v \<notin> fst ` set seen" by (auto simp: new_def)
      then have w: "walk g s level v" using nlw by blast
      have "\<not> walk g s k v" if "k < level" for k
      proof
        assume "walk g s k v"
        from walk_has_distance[OF this] obtain d where "d \<le> k" "is_distance g s v d" by blast
        then have "(v, d) \<in> set seen" using that seen by auto
        with v(2) show False by force
      qed
      with w show "v \<in> {t. is_distance g s t level}" by (simp add: is_distance_def)
    next
      fix v assume "v \<in> {t. is_distance g s t level}"
      then have d: "is_distance g s v level" by simp
      then have "v \<in> set nl" using nlc by blast
      moreover have "v \<notin> fst ` set seen"
      proof
        assume "v \<in> fst ` set seen"
        then obtain d' where "(v, d') \<in> set seen" by force
        then have "d' < level" "is_distance g s v d'" using seen by auto
        with d show False by (auto dest: is_distance_unique)
      qed
      ultimately show "v \<in> set new" by (simp add: new_def)
    qed
    have seen': "set ?seen' = {(t, d). d < Suc level \<and> is_distance g s t d}"
      using seen new_set by (auto simp: less_Suc_eq)
    have disj: "fst ` set seen \<inter> set new = {}" by (auto simp: new_def)
    have dist': "distinct (map fst ?seen')"
      using dist disj by (simp add: new_def comp_def)
    have nlw': "\<forall>v \<in> set ?nl'. walk g s (Suc level) v"
    proof
      fix v assume "v \<in> set ?nl'"
      then obtain u where "u \<in> set new" "v \<in> set (adj g u)" by auto
      then have "walk g s level u" using new_set by (auto simp: is_distance_def)
      then show "walk g s (Suc level) v" using \<open>v \<in> set (adj g u)\<close> by (rule walk_Suc)
    qed
    have nlc': "\<forall>t. is_distance g s t (Suc level) \<longrightarrow> t \<in> set ?nl'"
    proof (intro allI impI)
      fix t assume "is_distance g s t (Suc level)"
      from is_distance_pred[OF this] obtain u where "is_distance g s u level" "t \<in> set (adj g u)"
        by blast
      then show "t \<in> set ?nl'" using new_set by auto
    qed
    have unfold: "bfs_levels g seen level nl = bfs_levels g ?seen' (Suc level) ?nl'"
      using False by (subst bfs_levels.simps) (simp add: new_def Let_def)
    from "1.IH"[OF False new_def seen' dist' nlw' nlc'] show ?thesis
      unfolding unfold .
  qed
qed

lemma bfs_levels_distances:
  "set (bfs_levels g [] 0 [s]) = {(t, d). is_distance g s t d}"
  "distinct (map fst (bfs_levels g [] 0 [s]))"
proof -
  have 1: "set ([] :: (node \<times> nat) list) = {(t, d). d < 0 \<and> is_distance g s t d}" by simp
  have 2: "distinct (map fst ([] :: (node \<times> nat) list))" by simp
  have 3: "\<forall>v \<in> set [s]. walk g s 0 v" by (simp add: walk_0)
  have 4: "\<forall>t. is_distance g s t 0 \<longrightarrow> t \<in> set [s]"
    by (auto simp: is_distance_def elim: walk.cases)
  from bfs_levels_correct[OF 1 2 3 4]
  show "set (bfs_levels g [] 0 [s]) = {(t, d). is_distance g s t d}"
    "distinct (map fst (bfs_levels g [] 0 [s]))"
    by simp_all
qed

lemma finite_reachable: "finite {t. reachable g s t}"
proof -
  have "{t. reachable g s t} = fst ` set (bfs_levels g [] 0 [s])"
    unfolding bfs_levels_distances(1) by (force simp: is_distance_iff)
  then show ?thesis by simp
qed

lemma bfs_levels_sum:
  "sum_list (map snd (bfs_levels g [] 0 [s])) = (\<Sum>t | reachable g s t. distance g s t)"
proof -
  let ?xs = "bfs_levels g [] 0 [s]"
  have d: "distinct ?xs" using bfs_levels_distances(2)[of g s] by (simp add: distinct_map)
  have img: "set ?xs = (\<lambda>t. (t, distance g s t)) ` {t. reachable g s t}"
    unfolding bfs_levels_distances(1) by (auto simp: is_distance_iff)
  have inj: "inj_on (\<lambda>t. (t, distance g s t)) {t. reachable g s t}"
    by (rule inj_onI) simp
  have "sum_list (map snd ?xs) = sum snd (set ?xs)"
    by (rule sum_list_distinct_conv_sum_set[OF d])
  also have "\<dots> = (\<Sum>t | reachable g s t. distance g s t)"
    unfolding img by (simp add: sum.reindex[OF inj])
  finally show ?thesis .
qed

lemma bfs_levels_prefix: "\<exists>rest. bfs_levels g seen level nl = seen @ rest"
proof (induction g seen level nl rule: bfs_levels.induct)
  case (1 g seen level nl)
  show ?case
  proof (cases "nl = []")
    case True
    then show ?thesis by (simp add: bfs_levels.simps)
  next
    case False
    define new where "new = remdups (filter (\<lambda>v. v \<notin> fst ` set seen) nl)"
    from "1.IH"[OF False new_def] obtain rest where
      "bfs_levels g (seen @ map (\<lambda>v. (v, level)) new) (Suc level) (concat (map (adj g) new))
         = (seen @ map (\<lambda>v. (v, level)) new) @ rest"
      by blast
    then have "bfs_levels g seen level nl = seen @ (map (\<lambda>v. (v, level)) new @ rest)"
      using False by (subst bfs_levels.simps) (simp add: new_def Let_def)
    then show ?thesis by blast
  qed
qed

lemma bfs_levels_source: "\<exists>rest. bfs_levels g [] 0 [s] = (s, 0) # rest"
proof -
  have "bfs_levels g [] 0 [s] = bfs_levels g [(s, 0)] (Suc 0) (concat (map (adj g) [s]))"
    by (subst bfs_levels.simps) simp
  with bfs_levels_prefix[of g "[(s, 0)]" "Suc 0" "concat (map (adj g) [s])"]
  show ?thesis by auto
qed

lemma path_loop_total:
  assumes "set ns \<subseteq> set (nodes g)"
  shows "path_loop g ns (mx, tot) =
           Inr (fold (\<lambda>n acc. max acc (Max (set (map snd (bfs_levels g [] 0 [n]))))) ns mx,
                tot + of_nat (\<Sum>n\<leftarrow>ns. sum_list (map snd (bfs_levels g [] 0 [n]))))"
  using assms
proof (induction ns arbitrary: mx tot)
  case Nil
  then show ?case by simp
next
  case (Cons n ns)
  let ?pl = "bfs_levels g [] 0 [n]"
  have mem: "n \<in> set (nodes g)" and sub: "set ns \<subseteq> set (nodes g)" using Cons.prems by auto
  have ne: "map snd ?pl \<noteq> []" using bfs_levels_source[of g n] by auto
  have sssp: "single_source_shortest_path_length g n = Inr ?pl"
    using mem by (simp add: single_source_shortest_path_length_def)
  have mx: "py_max (map snd ?pl) = Inr (Max (set (map snd ?pl)))"
    by (rule py_max_nonempty[OF ne])
  have upd: "(if Max (set (map snd ?pl)) > mx then Max (set (map snd ?pl)) else mx)
               = max mx (Max (set (map snd ?pl)))"
    by (simp add: max_def)
  show ?case
    by (simp only: path_loop.simps sssp mx sum.case upd Cons.IH[OF sub] fold_Cons comp_apply
          list.map sum_list.Cons of_nat_add add.assoc)
qed

lemma diameter_and_avg_path_length_total:
  "\<exists>d. diameter_and_avg_path_length g =
     Inr (d, if len_graph g \<le> 1 then 0
             else of_nat (\<Sum>n\<leftarrow>nodes g. sum_list (map snd (bfs_levels g [] 0 [n])))
                  / of_nat (len_graph g * (len_graph g - 1)))"
proof -
  define N where "N = len_graph g"
  define S :: rat where "S = of_nat (\<Sum>n\<leftarrow>nodes g. sum_list (map snd (bfs_levels g [] 0 [n])))"
  obtain d where pl: "path_loop g (nodes g) (0, 0) = Inr (d, S)"
    using path_loop_total[of "nodes g" g 0 0] unfolding S_def by simp
  have eq: "diameter_and_avg_path_length g
      = Inr (d, if int N * (int N - 1) = 0 then 0 else S / of_int (int N * (int N - 1)))"
    unfolding diameter_and_avg_path_length_def pl N_def by (simp only: sum.case prod.case Let_def)
  show ?thesis
  proof (cases "N \<le> 1")
    case True
    then have "int N * (int N - 1) = 0" by auto
    with True show ?thesis unfolding eq N_def[symmetric] S_def[symmetric] by simp
  next
    case False
    then have nz: "int N * (int N - 1) \<noteq> 0" by auto
    have m1: "int (N - 1) = int N - 1" using False by (simp add: of_nat_diff)
    have e: "int N * (int N - 1) = int (N * (N - 1))"
      by (simp only: of_nat_mult m1)
    have "(of_int (int N * (int N - 1)) :: rat) = of_int (int (N * (N - 1)))"
      by (rule arg_cong[OF e])
    also have "\<dots> = of_nat (N * (N - 1))"
      by (rule of_int_of_nat_eq)
    finally have "(of_int (int N * (int N - 1)) :: rat) = of_nat (N * (N - 1))" .
    with False nz show ?thesis unfolding eq N_def[symmetric] S_def[symmetric] by simp
  qed
qed

text \<open>
  Claim C8. For a graph with at most one node the average path length is 0. For any other
  graph it is the sum, over every source node and every node reachable from it, of the
  shortest-path distance from the source to that node, divided by \<open>N * (N - 1)\<close> for the
  number \<open>N\<close> of nodes. The function never raises.
\<close>

theorem avg_path_length_formula:
  "\<exists>d. diameter_and_avg_path_length g =
     Inr (d, if len_graph g \<le> 1 then 0
             else of_nat (\<Sum>s\<leftarrow>nodes g. \<Sum>t | reachable g s t. distance g s t)
                  / of_nat (len_graph g * (len_graph g - 1)))"
  using diameter_and_avg_path_length_total[of g] by (simp only: bfs_levels_sum)

theorem avg_path_length_formula_witness:
  "len_graph [(7, [])] \<le> 1 \<and> (\<exists>d. diameter_and_avg_path_length [(7, [])] = Inr (d, 0))"
  using avg_path_length_formula[of "[(7, [])]"] by (simp add: len_graph_def nodes_def)

section \<open>Metrics on concrete graphs\<close>

text \<open>
  Claim C3, as amended. On the path graph with the edges 1-2 and 2-3 the function returns
  diameter 2 and average path length 8/6: the distances from node 1 are 0, 1, 2, from
  node 2 they are 1, 0, 1, from node 3 they are 2, 1, 0, which sum to 8 over the six
  ordered pairs of distinct nodes.
\<close>

theorem path3_diameter_and_avg_path_length:
  "diameter_and_avg_path_length [(1, [2]), (2, [1, 3]), (3, [2])] = Inr (2, 8 / 6)"
  by code_simp

text \<open>
  Claim C3 as stated fails: the average path length 4/6 given for this graph is not what
  the function returns.
\<close>

theorem path3_avg_path_length_counterexample:
  "diameter_and_avg_path_length [(1, [2]), (2, [1, 3]), (3, [2])] \<noteq> Inr (2, 4 / 6)"
  by code_simp

text \<open>
  Claim C5, as amended. On the graph without nodes there is no component, so taking the
  first of the sorted components raises \<^verbatim>\<open>IndexError\<close>; no value is returned.
\<close>

theorem giant_component_fraction_empty:
  "giant_component_fraction [] = Inl IndexError"
  by code_simp

text \<open>
  Claim C5 as stated fails: the result on the graph without nodes is not the number 0.
\<close>

theorem giant_component_fraction_empty_counterexample:
  "giant_component_fraction [] \<noteq> Inr 0"
  by code_simp

section \<open>Normalisation\<close>



section \<open>Simulation on an exhausted graph\<close>

lemma del_node_shorter:
  assumes "n \<in> set (nodes g)"
  shows "length (del_node n g) < length g"
proof -
  from assms obtain nbrs where "(n, nbrs) \<in> set g" by (auto simp: nodes_def)
  then have "length (filter (\<lambda>(u, nbrs). u \<noteq> n) g) < length g"
    by (intro length_filter_less[of "(n, nbrs)"]) auto
  then show ?thesis by (simp add: del_node_def)
qed

lemma attack_degree_step:
  assumes "h ! a \<noteq> []"
  shows "\<exists>g'. attack_degree h a = (h @ [g'], Inr (length h)) \<and> length g' < length (h ! a)"
proof -
  from attack_degree_nonempty[OF assms] obtain pre n d post where
    1: "degree (h ! a) = pre @ (n, d) # post"
       "attack_degree h a = (h @ [del_node n (h ! a)], Inr (length h))"
    by blast
  have "n \<in> fst ` set (degree (h ! a))" using 1(1) by force
  then have "n \<in> set (nodes (h ! a))" by (force simp: degree_def nodes_def)
  from del_node_shorter[OF this] 1(2) show ?thesis by blast
qed

lemma giant_component_fraction_error:
  "giant_component_fraction g = Inl e \<Longrightarrow> g = [] \<and> e = IndexError"
proof (cases "g = []")
  case True
  assume "giant_component_fraction g = Inl e"
  with True show ?thesis
    by (simp add: giant_component_fraction_def connected_component_subgraphs_def
        connected_components_def nodes_def sorted_reverse_def)
next
  case False
  assume "giant_component_fraction g = Inl e"
  with giant_component_fraction_nonempty[OF False] show ?thesis by auto
qed

lemma attack_loop_exhausted:
  assumes "length (h ! a) < length its"
  shows "\<exists>h' e. attack_loop f its h a hist = (h', Inl e)
           \<and> e \<in> {ValueError, IndexError, ZeroDivisionError}"
  using assms
proof (induction its arbitrary: h a hist)
  case Nil
  then show ?case by simp
next
  case (Cons i rest)
  obtain ds ps gs where hist: "hist = (ds, ps, gs)" by (cases hist) auto
  show ?case
  proof (cases "h ! a = []")
    case True
    then show ?thesis by (simp add: hist attack_degree_empty)
  next
    case False
    from attack_degree_step[OF False] obtain g' where
      st: "attack_degree h a = (h @ [g'], Inr (length h))" and len: "length g' < length (h ! a)"
      by blast
    have cur: "(h @ [g']) ! length h = g'" by simp
    have less: "length ((h @ [g']) ! length h) < length rest"
      using len Cons.prems by simp
    obtain d p where dp: "diameter_and_avg_path_length g' = Inr (d, p)"
      using diameter_and_avg_path_length_total[of g'] by blast
    show ?thesis
    proof (cases "f = 0")
      case True
      then show ?thesis by (simp add: hist st)
    next
      case f: False
      show ?thesis
      proof (cases "int i mod f = 0")
        case True
        show ?thesis
        proof (cases "giant_component_fraction g'")
          case (Inl e)
          then have "e = IndexError" by (auto dest: giant_component_fraction_error)
          with Inl f True show ?thesis by (simp add: hist st dp)
        next
          case (Inr v)
          with Cons.IH[OF less, of "(ds @ [of_nat d], ps @ [p], gs @ [v])"] f True
          show ?thesis by (simp add: hist st dp)
        qed
      next
        case False
        with Cons.IH[OF less, of hist] f show ?thesis by (simp add: hist st)
      qed
    qed
  qed
qed

text \<open>
  Claim C2, as amended. When \<open>nodes_to_remove\<close> is greater than the number of nodes, the
  attack-mode simulation does not halt early: it ends with an exception and hands no
  history to \<^verbatim>\<open>dump_history\<close>. The exception is \<^verbatim>\<open>ValueError\<close> (the maximum of the empty
  degree list in \<open>attack_degree\<close>), \<^verbatim>\<open>IndexError\<close> (\<open>giant_component_fraction\<close> sampled on
  the emptied graph) or \<^verbatim>\<open>ZeroDivisionError\<close> (measure frequency zero).
\<close>

theorem robustness_by_attack_exhausted:
  assumes "int (len_graph (h ! src_graph)) < nodes_to_remove"
  shows "\<exists>h' e. robustness_by_attack h src_graph nodes_to_remove measure_frequency = (h', Inl e)
           \<and> e \<in> {ValueError, IndexError, ZeroDivisionError}"
proof -
  have "length (h ! src_graph) < length [0..<nat nodes_to_remove]"
    using assms by (simp add: len_graph_def nodes_def)
  from attack_loop_exhausted[OF this] show ?thesis
    by (simp add: robustness_by_attack_def)
qed

theorem robustness_by_attack_exhausted_witness:
  "int (len_graph ([[(1, [2]), (2, [1, 3]), (3, [2])]] ! 0)) < 4
   \<and> (\<exists>h' e. robustness_by_attack [[(1, [2]), (2, [1, 3]), (3, [2])]] 0 4 3 = (h', Inl e)
           \<and> e \<in> {ValueError, IndexError, ZeroDivisionError})"
proof -
  have "int (len_graph ([[(1, [2]), (2, [1, 3]), (3, [2])]] ! 0)) < 4"
    by (simp add: len_graph_def nodes_def)
  from this robustness_by_attack_exhausted[OF this, of 3] show ?thesis by (rule conjI)
qed

text \<open>
  Claim C2 as stated fails on two such runs, which end with an exception instead of a
  shorter history: one node and two removals sampled at every iteration, and the path on
  three nodes with four removals sampled at every third iteration.
\<close>

theorem robustness_by_attack_exhausted_counterexample:
  "snd (robustness_by_attack [[(1, [])]] 0 2 1) = Inl IndexError
   \<and> snd (robustness_by_attack [[(1, [2]), (2, [1, 3]), (3, [2])]] 0 4 3) = Inl ValueError"
  by code_simp

section \<open>Which graph a sample is taken from\<close>

lemma fail_step:
  assumes "h ! a \<noteq> []"
  shows "\<exists>g'. fail r h a = (h @ [g'], Inr (length h)) \<and> length g' < length (h ! a)"
proof -
  have "r mod length (h ! a) < length (nodes (h ! a))"
    using assms by (simp add: nodes_def)
  then have "nodes (h ! a) ! (r mod length (h ! a)) \<in> set (nodes (h ! a))"
    by (rule nth_mem)
  from del_node_shorter[OF this] fail_nonempty[OF assms, of r] show ?thesis by blast
qed

lemma attack_degree_graph_result:
  "graph_result (attack_degree h a) = graph_result (attack_degree [h ! a] 0)"
proof (cases "h ! a = []")
  case True
  then have "[h ! a] ! 0 = []" by simp
  from attack_degree_empty[OF True] attack_degree_empty[OF this]
  show ?thesis by (simp add: graph_result_def)
next
  case False
  from attack_degree_value[OF False] obtain n where
    n: "\<And>h' a'. h' ! a' = h ! a \<Longrightarrow>
          attack_degree h' a' = (h' @ [del_node n (h ! a)], Inr (length h'))"
    by blast
  have "[h ! a] ! 0 = h ! a" by simp
  from n[OF this] n[OF refl] show ?thesis by (simp add: graph_result_def)
qed

lemma fail_graph_result:
  "graph_result (fail r h a) = graph_result (fail r [h ! a] 0)"
proof (cases "h ! a = []")
  case True
  then have "[h ! a] ! 0 = []" by simp
  from fail_empty[OF True] fail_empty[OF this]
  show ?thesis by (simp add: graph_result_def)
next
  case False
  then have "[h ! a] ! 0 \<noteq> []" by simp
  from fail_nonempty[OF False, of r] fail_nonempty[OF this, of r]
  show ?thesis by (simp add: graph_result_def)
qed

lemma attack_degree_success:
  assumes "attack_degree h a = (h1, Inr a1)"
  shows "\<exists>g'. h1 = h @ [g'] \<and> a1 = length h \<and> length g' < length (h ! a)
           \<and> graph_result (attack_degree [h ! a] 0) = Inr g'"
proof (cases "h ! a = []")
  case True
  from attack_degree_empty[OF True] assms show ?thesis by simp
next
  case False
  from attack_degree_step[OF False] assms obtain g' where
    g': "h1 = h @ [g']" "a1 = length h" "length g' < length (h ! a)" by auto
  have "graph_result (attack_degree h a) = Inr g'"
    using assms g' by (simp add: graph_result_def)
  then have "graph_result (attack_degree [h ! a] 0) = Inr g'"
    by (simp only: attack_degree_graph_result[of h a])
  with g' show ?thesis by blast
qed

lemma fail_success:
  assumes "fail r h a = (h1, Inr a1)"
  shows "\<exists>g'. h1 = h @ [g'] \<and> a1 = length h \<and> length g' < length (h ! a)
           \<and> graph_result (fail r [h ! a] 0) = Inr g'"
proof (cases "h ! a = []")
  case True
  from fail_empty[OF True, of r] assms show ?thesis by simp
next
  case False
  from fail_step[OF False, of r] assms obtain g' where
    g': "h1 = h @ [g']" "a1 = length h" "length g' < length (h ! a)" by auto
  have "graph_result (fail r h a) = Inr g'"
    using assms g' by (simp add: graph_result_def)
  then have "graph_result (fail r [h ! a] 0) = Inr g'"
    by (simp only: fail_graph_result[of r h a])
  with g' show ?thesis by blast
qed


lemma attack_value_shorter:
  assumes "graph_result (attack_degree [g] 0) = Inr g'"
  shows "length g' < length g"
proof -
  obtain h1 r where st: "attack_degree [g] 0 = (h1, r)" by (cases "attack_degree [g] 0")
  with assms obtain a1 where r: "r = Inr a1" and g': "g' = h1 ! a1"
    by (cases r) (auto simp: graph_result_def)
  from attack_degree_success[OF st[unfolded r]] g' show ?thesis by auto
qed

lemma fail_value_shorter:
  assumes "graph_result (fail r [g] 0) = Inr g'"
  shows "length g' < length g"
proof -
  obtain h1 res where st: "fail r [g] 0 = (h1, res)" by (cases "fail r [g] 0")
  with assms obtain a1 where r: "res = Inr a1" and g': "g' = h1 ! a1"
    by (cases res) (auto simp: graph_result_def)
  from fail_success[OF st[unfolded r]] g' show ?thesis by auto
qed

lemma attack_entry_step:
  assumes "graph_result (attack_degree [g] 0) = Inr g1" and "attack_entry g1 k e"
  shows "attack_entry g (Suc k) e"
proof -
  from assms(2) obtain G d where
    e: "after_attacks k g1 = Inr G" "len_graph G + k \<le> len_graph g1"
       "diameter_and_avg_path_length G = Inr (d, fst (snd e))" "fst e = of_nat d"
       "giant_component_fraction G = Inr (snd (snd e))"
    unfolding attack_entry_def by blast
  have "after_attacks (Suc k) g = Inr G" using assms(1) e(1) by simp
  moreover have "len_graph G + Suc k \<le> len_graph g"
    using attack_value_shorter[OF assms(1)] e(2) by (simp add: len_graph_def nodes_def)
  ultimately show ?thesis unfolding attack_entry_def using e(3-5) by blast
qed

lemma attack_entry_first:
  assumes "graph_result (attack_degree [g] 0) = Inr g1"
    and "diameter_and_avg_path_length g1 = Inr (d, p)"
    and "giant_component_fraction g1 = Inr v"
  shows "attack_entry g (Suc 0) (of_nat d, p, v)"
proof -
  have "after_attacks (Suc 0) g = Inr g1" using assms(1) by simp
  moreover have "len_graph g1 + Suc 0 \<le> len_graph g"
    using attack_value_shorter[OF assms(1)] by (simp add: len_graph_def nodes_def)
  ultimately show ?thesis unfolding attack_entry_def using assms(2,3) by auto
qed

lemma attack_loop_entries:
  assumes "attack_loop f [i0..<n] h a (ds, ps, gs) = (h', Inr (ds', ps', gs'))"
  shows "\<exists>es. ds' = ds @ map fst es \<and> ps' = ps @ map (fst \<circ> snd) es
           \<and> gs' = gs @ map (snd \<circ> snd) es
           \<and> list_all2 (\<lambda>i e. attack_entry (h ! a) (Suc (i - i0)) e)
                (filter (\<lambda>i. int i mod f = 0) [i0..<n]) es"
  using assms
proof (induction "n - i0" arbitrary: i0 h a ds ps gs)
  case 0
  then have e: "[i0..<n] = []" by simp
  from "0.prems" show ?case unfolding e by (intro exI[of _ "[]"]) simp
next
  case (Suc k)
  then have lt: "i0 < n" and k: "k = n - Suc i0" by simp_all
  have upt: "[i0..<n] = i0 # [Suc i0..<n]" using lt by (rule upt_conv_Cons)
  note run = Suc.prems[unfolded upt]
  obtain h1 r where st: "attack_degree h a = (h1, r)" by (cases "attack_degree h a")
  from run st obtain a1 where r: "r = Inr a1" by (cases r) auto
  from attack_degree_success[OF st[unfolded r]] obtain g1 where
    g1: "h1 = h @ [g1]" "a1 = length h" "graph_result (attack_degree [h ! a] 0) = Inr g1"
    by blast
  have cur: "h1 ! a1 = g1" by (simp add: g1)
  have f: "f \<noteq> 0" using run st r by (auto split: if_splits)
  have conv: "list_all2 (\<lambda>i e. attack_entry (h ! a) (Suc (i - i0)) e)
                (filter (\<lambda>i. int i mod f = 0) [Suc i0..<n]) es"
    if "list_all2 (\<lambda>i e. attack_entry (h1 ! a1) (Suc (i - Suc i0)) e)
                (filter (\<lambda>i. int i mod f = 0) [Suc i0..<n]) es" for es
    using that
  proof (rule list.rel_mono_strong)
    fix i e
    assume "i \<in> set (filter (\<lambda>i. int i mod f = 0) [Suc i0..<n])"
      and e: "attack_entry (h1 ! a1) (Suc (i - Suc i0)) e"
    then have "Suc (i - i0) = Suc (Suc (i - Suc i0))" by auto
    with attack_entry_step[OF g1(3) e[unfolded cur]]
    show "attack_entry (h ! a) (Suc (i - i0)) e" by simp
  qed
  show ?case
  proof (cases "int i0 mod f = 0")
    case True
    obtain d p where dp: "diameter_and_avg_path_length g1 = Inr (d, p)"
      using diameter_and_avg_path_length_total[of g1] by blast
    from run st r f True dp cur obtain v where
      v: "giant_component_fraction g1 = Inr v"
      and rest: "attack_loop f [Suc i0..<n] h1 a1 (ds @ [of_nat d], ps @ [p], gs @ [v])
                   = (h', Inr (ds', ps', gs'))"
      by (cases "giant_component_fraction g1") auto
    from Suc.hyps(1)[OF k rest] obtain es where
      es: "ds' = (ds @ [of_nat d]) @ map fst es" "ps' = (ps @ [p]) @ map (fst \<circ> snd) es"
          "gs' = (gs @ [v]) @ map (snd \<circ> snd) es"
          "list_all2 (\<lambda>i e. attack_entry (h1 ! a1) (Suc (i - Suc i0)) e)
                (filter (\<lambda>i. int i mod f = 0) [Suc i0..<n]) es"
      by blast
    have first: "attack_entry (h ! a) (Suc (i0 - i0)) (of_nat d, p, v)"
      using attack_entry_first[OF g1(3) dp v] by simp
    have "list_all2 (\<lambda>i e. attack_entry (h ! a) (Suc (i - i0)) e)
                (filter (\<lambda>i. int i mod f = 0) [i0..<n]) ((of_nat d, p, v) # es)"
      unfolding upt using True first conv[OF es(4)] by simp
    with es(1-3) show ?thesis
      by (intro exI[of _ "(of_nat d, p, v) # es"]) simp
  next
    case False
    from run st r f False have
      rest: "attack_loop f [Suc i0..<n] h1 a1 (ds, ps, gs) = (h', Inr (ds', ps', gs'))"
      by simp
    from Suc.hyps(1)[OF k rest] obtain es where
      es: "ds' = ds @ map fst es" "ps' = ps @ map (fst \<circ> snd) es"
          "gs' = gs @ map (snd \<circ> snd) es"
          "list_all2 (\<lambda>i e. attack_entry (h1 ! a1) (Suc (i - Suc i0)) e)
                (filter (\<lambda>i. int i mod f = 0) [Suc i0..<n]) es"
      by blast
    have "list_all2 (\<lambda>i e. attack_entry (h ! a) (Suc (i - i0)) e)
                (filter (\<lambda>i. int i mod f = 0) [i0..<n]) es"
      unfolding upt using False conv[OF es(4)] by simp
    with es(1-3) show ?thesis by blast
  qed
qed


lemma fail_entry_step:
  assumes "graph_result (fail (draw i) [g] 0) = Inr g1" and "fail_entry draw g1 its v"
  shows "fail_entry draw g (i # its) v"
proof -
  from assms(2) obtain G where
    e: "after_fails draw its g1 = Inr G" "len_graph G + length its \<le> len_graph g1"
       "giant_component_fraction G = Inr v"
    unfolding fail_entry_def by blast
  have "after_fails draw (i # its) g = Inr G" using assms(1) e(1) by simp
  moreover have "len_graph G + length (i # its) \<le> len_graph g"
    using fail_value_shorter[OF assms(1)] e(2) by (simp add: len_graph_def nodes_def)
  ultimately show ?thesis unfolding fail_entry_def using e(3) by blast
qed

lemma fail_entry_first:
  assumes "graph_result (fail (draw i) [g] 0) = Inr g1"
    and "giant_component_fraction g1 = Inr v"
  shows "fail_entry draw g [i] v"
proof -
  have "after_fails draw [i] g = Inr g1" using assms(1) by simp
  moreover have "len_graph g1 + length [i] \<le> len_graph g"
    using fail_value_shorter[OF assms(1)] by (simp add: len_graph_def nodes_def)
  ultimately show ?thesis unfolding fail_entry_def using assms(2) by blast
qed

lemma fail_loop_entries:
  assumes "fail_loop draw f [i0..<n] h a ga = (h', Inr ga')"
  shows "\<exists>vs ext. ga' = ga @ vs \<and> h' = h @ ext
           \<and> list_all2 (\<lambda>i v. fail_entry draw (h ! a) [i0..<Suc i] v)
                (filter (\<lambda>i. int i mod f = 0) [i0..<n]) vs"
  using assms
proof (induction "n - i0" arbitrary: i0 h a ga)
  case 0
  then have e: "[i0..<n] = []" by simp
  from "0.prems" show ?case unfolding e by (intro exI[of _ "[]"]) simp
next
  case (Suc k)
  then have lt: "i0 < n" and k: "k = n - Suc i0" by simp_all
  have upt: "[i0..<n] = i0 # [Suc i0..<n]" using lt by (rule upt_conv_Cons)
  note run = Suc.prems[unfolded upt]
  obtain h1 r where st: "fail (draw i0) h a = (h1, r)" by (cases "fail (draw i0) h a")
  from run st obtain a1 where r: "r = Inr a1" by (cases r) auto
  from fail_success[OF st[unfolded r]] obtain g1 where
    g1: "h1 = h @ [g1]" "a1 = length h" "graph_result (fail (draw i0) [h ! a] 0) = Inr g1"
    by blast
  have cur: "h1 ! a1 = g1" by (simp add: g1)
  have f: "f \<noteq> 0" using run st r by (auto split: if_splits)
  have conv: "list_all2 (\<lambda>i v. fail_entry draw (h ! a) [i0..<Suc i] v)
                (filter (\<lambda>i. int i mod f = 0) [Suc i0..<n]) vs"
    if "list_all2 (\<lambda>i v. fail_entry draw (h1 ! a1) [Suc i0..<Suc i] v)
                (filter (\<lambda>i. int i mod f = 0) [Suc i0..<n]) vs" for vs
    using that
  proof (rule list.rel_mono_strong)
    fix i v
    assume "i \<in> set (filter (\<lambda>i. int i mod f = 0) [Suc i0..<n])"
      and e: "fail_entry draw (h1 ! a1) [Suc i0..<Suc i] v"
    then have "i0 < Suc i" by auto
    then have "[i0..<Suc i] = i0 # [Suc i0..<Suc i]" by (rule upt_conv_Cons)
    with fail_entry_step[where draw=draw and i=i0, OF g1(3) e[unfolded cur]]
    show "fail_entry draw (h ! a) [i0..<Suc i] v" by simp
  qed
  show ?case
  proof (cases "int i0 mod f = 0")
    case True
    from run st r f True cur obtain v where
      v: "giant_component_fraction g1 = Inr v"
      and rest: "fail_loop draw f [Suc i0..<n] h1 a1 (ga @ [v]) = (h', Inr ga')"
      by (cases "giant_component_fraction g1") auto
    from Suc.hyps(1)[OF k rest] obtain vs ext where
      vs: "ga' = (ga @ [v]) @ vs" "h' = h1 @ ext"
          "list_all2 (\<lambda>i v. fail_entry draw (h1 ! a1) [Suc i0..<Suc i] v)
                (filter (\<lambda>i. int i mod f = 0) [Suc i0..<n]) vs"
      by blast
    have first: "fail_entry draw (h ! a) [i0..<Suc i0] v"
      using fail_entry_first[where draw=draw and i=i0, OF g1(3) v] by simp
    have "list_all2 (\<lambda>i v. fail_entry draw (h ! a) [i0..<Suc i] v)
                (filter (\<lambda>i. int i mod f = 0) [i0..<n]) (v # vs)"
      unfolding upt using True first conv[OF vs(3)] by simp
    with vs(1,2) g1(1) show ?thesis
      by (intro exI[of _ "v # vs"] exI[of _ "g1 # ext"]) simp
  next
    case False
    from run st r f False have
      rest: "fail_loop draw f [Suc i0..<n] h1 a1 ga = (h', Inr ga')"
      by simp
    from Suc.hyps(1)[OF k rest] obtain vs ext where
      vs: "ga' = ga @ vs" "h' = h1 @ ext"
          "list_all2 (\<lambda>i v. fail_entry draw (h1 ! a1) [Suc i0..<Suc i] v)
                (filter (\<lambda>i. int i mod f = 0) [Suc i0..<n]) vs"
      by blast
    have "list_all2 (\<lambda>i v. fail_entry draw (h ! a) [i0..<Suc i] v)
                (filter (\<lambda>i. int i mod f = 0) [i0..<n]) vs"
      unfolding upt using False conv[OF vs(3)] by simp
    with vs(1,2) g1(1) show ?thesis
      by (intro exI[of _ vs] exI[of _ "g1 # ext"]) simp
  qed
qed

lemma fail_runs_entries:
  assumes "fail_runs draw n f rs h src (dss, pss, gss) = (h', Inr (dss', pss', gss'))"
    and "src < length h"
  shows "dss' = dss @ replicate (length rs) [] \<and> pss' = pss @ replicate (length rs) []
         \<and> (\<exists>vss. gss' = gss @ vss
               \<and> list_all2 (\<lambda>r vs. list_all2 (\<lambda>i v. fail_entry (draw r) (h ! src) [0..<Suc i] v)
                                      (filter (\<lambda>i. int i mod f = 0) [0..<nat n]) vs) rs vss)"
  using assms
proof (induction rs arbitrary: h dss pss gss)
  case Nil
  then show ?case by simp
next
  case (Cons r rs)
  obtain h1 res where lp: "fail_loop (draw r) f [0..<nat n] h src [] = (h1, res)"
    by (cases "fail_loop (draw r) f [0..<nat n] h src []")
  from Cons.prems(1) lp obtain ga where res: "res = Inr ga" by (cases res) auto
  from Cons.prems(1) lp res have
    rest: "fail_runs draw n f rs h1 src (dss @ [[]], pss @ [[]], gss @ [ga])
             = (h', Inr (dss', pss', gss'))"
    by simp
  from fail_loop_entries[OF lp[unfolded res]] obtain vs ext where
    vs: "ga = vs" "h1 = h @ ext"
        "list_all2 (\<lambda>i v. fail_entry (draw r) (h ! src) [0..<Suc i] v)
                (filter (\<lambda>i. int i mod f = 0) [0..<nat n]) vs"
    by auto
  have src1: "src < length h1" and same: "h1 ! src = h ! src"
    using Cons.prems(2) vs(2) by (simp_all add: nth_append)
  from Cons.IH[OF rest src1] obtain vss where
    ih: "dss' = (dss @ [[]]) @ replicate (length rs) []"
        "pss' = (pss @ [[]]) @ replicate (length rs) []"
        "gss' = (gss @ [ga]) @ vss"
        "list_all2 (\<lambda>r vs. list_all2 (\<lambda>i v. fail_entry (draw r) (h1 ! src) [0..<Suc i] v)
                                      (filter (\<lambda>i. int i mod f = 0) [0..<nat n]) vs) rs vss"
    by blast
  have "list_all2 (\<lambda>r vs. list_all2 (\<lambda>i v. fail_entry (draw r) (h ! src) [0..<Suc i] v)
                                      (filter (\<lambda>i. int i mod f = 0) [0..<nat n]) vs)
          (r # rs) (ga # vss)"
    using ih(4) vs(1,3) unfolding same by simp
  moreover have "gss' = gss @ (ga # vss)" using ih(3) by simp
  moreover have "dss' = dss @ replicate (length (r # rs)) []"
    "pss' = pss @ replicate (length (r # rs)) []"
    using ih(1,2) by simp_all
  ultimately show ?case by blast
qed

lemma sampled_first:
  assumes "1 \<le> n" and "1 \<le> f"
  shows "filter (\<lambda>i. int i mod f = 0) [0..<nat n]
           = 0 # filter (\<lambda>i. int i mod f = 0) [Suc 0..<nat n]"
proof -
  have "0 < nat n" using assms(1) by simp
  then have "[0..<nat n] = 0 # [Suc 0..<nat n]" by (rule upt_conv_Cons)
  then show ?thesis by simp
qed

text \<open>
  Claim C10. In a run with at least one removal and a positive measure frequency, the
  samples correspond, in order, to the iterations \<open>i\<close> with \<open>i mod measure_frequency = 0\<close>,
  and the sample of iteration \<open>i\<close> is taken from the graph after \<open>i + 1\<close> removals, which
  has fewer nodes than the input graph. So every series that is filled starts with a
  metric of the graph after exactly one removal, and no metric of the input graph itself
  is recorded. In failure mode this holds for the giant-component series of every run;
  the diameter and path-length series of a run are empty.
\<close>

theorem samples_follow_a_removal:
  assumes "1 \<le> nodes_to_remove" and "1 \<le> measure_frequency" and "src_graph < length h"
  shows "(\<forall>h' ds ps gs.
            robustness_by_attack h src_graph nodes_to_remove measure_frequency
              = (h', Inr (ds, ps, gs)) \<longrightarrow>
            (\<exists>es. ds = map fst es \<and> ps = map (fst \<circ> snd) es \<and> gs = map (snd \<circ> snd) es
               \<and> list_all2 (\<lambda>i e. attack_entry (h ! src_graph) (Suc i) e)
                    (filter (\<lambda>i. int i mod measure_frequency = 0) [0..<nat nodes_to_remove]) es
               \<and> es \<noteq> [] \<and> attack_entry (h ! src_graph) 1 (hd es)))
       \<and> (\<forall>h' dss pss gss.
            robustness_by_fail draw h src_graph number_of_runs nodes_to_remove measure_frequency
              = (h', Inr (dss, pss, gss)) \<longrightarrow>
            dss = replicate (nat number_of_runs) [] \<and> pss = replicate (nat number_of_runs) []
            \<and> list_all2 (\<lambda>r vs.
                   list_all2 (\<lambda>i v. fail_entry (draw r) (h ! src_graph) [0..<Suc i] v)
                     (filter (\<lambda>i. int i mod measure_frequency = 0) [0..<nat nodes_to_remove]) vs
                   \<and> vs \<noteq> [] \<and> fail_entry (draw r) (h ! src_graph) [0] (hd vs))
                 [0..<nat number_of_runs] gss)"
proof (intro conjI allI impI)
  let ?S = "filter (\<lambda>i. int i mod measure_frequency = 0) [0..<nat nodes_to_remove]"
  note first = sampled_first[OF assms(1,2)]
  {
    fix h' ds ps gs
    assume "robustness_by_attack h src_graph nodes_to_remove measure_frequency
              = (h', Inr (ds, ps, gs))"
    then have "attack_loop measure_frequency [0..<nat nodes_to_remove] h src_graph ([], [], [])
              = (h', Inr (ds, ps, gs))"
      by (simp add: robustness_by_attack_def)
    from attack_loop_entries[OF this] obtain es where
      es: "ds = map fst es" "ps = map (fst \<circ> snd) es" "gs = map (snd \<circ> snd) es"
          "list_all2 (\<lambda>i e. attack_entry (h ! src_graph) (Suc i) e) ?S es"
      by auto
    from es(4) obtain e rest where "es = e # rest" "attack_entry (h ! src_graph) (Suc 0) e"
      unfolding first by (auto simp: list_all2_Cons1)
    then have "es \<noteq> []" "attack_entry (h ! src_graph) 1 (hd es)" by simp_all
    with es show "\<exists>es. ds = map fst es \<and> ps = map (fst \<circ> snd) es \<and> gs = map (snd \<circ> snd) es
               \<and> list_all2 (\<lambda>i e. attack_entry (h ! src_graph) (Suc i) e) ?S es
               \<and> es \<noteq> [] \<and> attack_entry (h ! src_graph) 1 (hd es)"
      by blast
  }
  {
    fix h' dss pss gss
    assume "robustness_by_fail draw h src_graph number_of_runs nodes_to_remove measure_frequency
              = (h', Inr (dss, pss, gss))"
    then have "fail_runs draw nodes_to_remove measure_frequency [0..<nat number_of_runs] h src_graph
                 ([], [], []) = (h', Inr (dss, pss, gss))"
      by (simp add: robustness_by_fail_def)
    from fail_runs_entries[OF this assms(3)] have
      r: "dss = replicate (nat number_of_runs) []" "pss = replicate (nat number_of_runs) []"
         "list_all2 (\<lambda>r vs. list_all2 (\<lambda>i v. fail_entry (draw r) (h ! src_graph) [0..<Suc i] v) ?S vs)
            [0..<nat number_of_runs] gss"
      by auto
    show "dss = replicate (nat number_of_runs) []" by (rule r(1))
    show "pss = replicate (nat number_of_runs) []" by (rule r(2))
    show "list_all2 (\<lambda>r vs.
                   list_all2 (\<lambda>i v. fail_entry (draw r) (h ! src_graph) [0..<Suc i] v) ?S vs
                   \<and> vs \<noteq> [] \<and> fail_entry (draw r) (h ! src_graph) [0] (hd vs))
                 [0..<nat number_of_runs] gss"
      using r(3)
    proof (rule list.rel_mono_strong)
      fix r vs
      assume a: "list_all2 (\<lambda>i v. fail_entry (draw r) (h ! src_graph) [0..<Suc i] v) ?S vs"
      then obtain v rest where "vs = v # rest" "fail_entry (draw r) (h ! src_graph) [0..<Suc 0] v"
        unfolding first by (auto simp: list_all2_Cons1)
      then have "vs \<noteq> []" "fail_entry (draw r) (h ! src_graph) [0] (hd vs)" by simp_all
      with a show "list_all2 (\<lambda>i v. fail_entry (draw r) (h ! src_graph) [0..<Suc i] v) ?S vs
                   \<and> vs \<noteq> [] \<and> fail_entry (draw r) (h ! src_graph) [0] (hd vs)"
        by blast
    qed
  }
qed

theorem samples_follow_a_removal_witness:
  "(1::int) \<le> 2 \<and> (1::int) \<le> 1
   \<and> (0::nat) < length ([[(1, [2]), (2, [1, 3]), (3, [2, 4]), (4, [3])]] :: heap)
   \<and> robustness_by_attack [[(1, [2]), (2, [1, 3]), (3, [2, 4]), (4, [3])]] 0 2 1
       = ([[(1, [2]), (2, [1, 3]), (3, [2, 4]), (4, [3])],
           [(1, []), (3, [4]), (4, [3])], [(1, []), (4, [])]],
          Inr ([1, 0], [1 / 3, 0], [1 / 3, 0]))
   \<and> robustness_by_fail (\<lambda>r i. r + i) [[(1, [2]), (2, [1, 3]), (3, [2, 4]), (4, [3])]] 0 2 2 1
       = ([[(1, [2]), (2, [1, 3]), (3, [2, 4]), (4, [3])],
           [(2, [3]), (3, [2, 4]), (4, [3])], [(2, []), (4, [])],
           [(1, []), (3, [4]), (4, [3])], [(1, []), (3, [])]],
          Inr ([[], []], [[], []], [[2 / 3, 0], [1 / 3, 0]]))
   \<and> (\<exists>es. [1, 0] = map fst es \<and> [1 / 3, 0] = map (fst \<circ> snd) es
          \<and> [1 / 3, 0] = map (snd \<circ> snd) es
          \<and> attack_entry [(1, [2]), (2, [1, 3]), (3, [2, 4]), (4, [3])] 1 (hd es))
   \<and> list_all2 (\<lambda>r vs. vs \<noteq> []
          \<and> fail_entry (\<lambda>i. r + i) [(1, [2]), (2, [1, 3]), (3, [2, 4]), (4, [3])] [0] (hd vs))
        [0..<nat 2] [[2 / 3, 0], [1 / 3, 0]]"
proof -
  let ?g = "[(1, [2]), (2, [1, 3]), (3, [2, 4]), (4, [3])] :: graph"
  have n: "(1::int) \<le> 2" and f: "(1::int) \<le> 1" and s: "(0::nat) < length [?g]" by simp_all
  have a: "robustness_by_attack [?g] 0 2 1
       = ([?g, [(1, []), (3, [4]), (4, [3])], [(1, []), (4, [])]],
          Inr ([1, 0], [1 / 3, 0], [1 / 3, 0]))"
    by code_simp
  have b: "robustness_by_fail (\<lambda>r i. r + i) [?g] 0 2 2 1
       = ([?g, [(2, [3]), (3, [2, 4]), (4, [3])], [(2, []), (4, [])],
           [(1, []), (3, [4]), (4, [3])], [(1, []), (3, [])]],
          Inr ([[], []], [[], []], [[2 / 3, 0], [1 / 3, 0]]))"
    by code_simp
  note inst = samples_follow_a_removal[OF n f s, of "\<lambda>r i. r + i" 2]
  have g0: "[?g] ! 0 = ?g" by simp
  from inst[THEN conjunct1, rule_format, OF a] obtain es where
    es: "[1, 0] = map fst es" "[1 / 3, 0] = map (fst \<circ> snd) es"
        "[1 / 3, 0] = map (snd \<circ> snd) es" "attack_entry ([?g] ! 0) 1 (hd es)"
    by (elim exE conjE)
  have c: "\<exists>es. [1, 0] = map fst es \<and> [1 / 3, 0] = map (fst \<circ> snd) es
          \<and> [1 / 3, 0] = map (snd \<circ> snd) es \<and> attack_entry ?g 1 (hd es)"
    using es unfolding g0 by (intro exI[of _ es] conjI)
  from inst[THEN conjunct2, rule_format, OF b]
  have "list_all2 (\<lambda>r vs.
          list_all2 (\<lambda>i v. fail_entry (\<lambda>i. r + i) ([?g] ! 0) [0..<Suc i] v)
            (filter (\<lambda>i. int i mod 1 = 0) [0..<nat 2]) vs
          \<and> vs \<noteq> [] \<and> fail_entry (\<lambda>i. r + i) ([?g] ! 0) [0] (hd vs))
        [0..<nat 2] [[2 / 3, 0], [1 / 3, 0]]"
    by (elim conjE)
  then have d: "list_all2 (\<lambda>r vs. vs \<noteq> [] \<and> fail_entry (\<lambda>i. r + i) ?g [0] (hd vs))
        [0..<nat 2] [[2 / 3, 0], [1 / 3, 0]]"
    unfolding g0 by (rule list.rel_mono_strong) (elim conjE, intro conjI)
  from n f s a b c d show ?thesis by (intro conjI)
qed

section \<open>Writing and reading a history\<close>












end
